theory Spec2Isabelle
  imports Complex_Main "HOL-Library.AList"
begin

section \<open>Data model of the scene editor (game/editor/model.py)\<close>

text \<open>
  Node ids are Python ints. The node table is a Python dict, which keeps insertion
  order and has one entry per key: it is modelled as an association list, read with
  \<open>map_of\<close>, written with \<open>AList.update\<close> (an existing key keeps its place, a new key
  goes last) and popped with \<open>AList.delete\<close>.
  Coordinates and radii are Python floats; they are modelled as reals, so NaN,
  infinities and rounding are outside this model.
\<close>

datatype node_kind = Root | Entity | Environment

text \<open>
  Modelled from the spec: \<open>PaletteKind\<close>, \<open>PaletteItem\<close> and \<open>PaletteRegistry\<close> are
  declared in game/editor/registry.py, which is not among the sources. The spec gives
  the two child kinds of the eligibility table, and the registry capability
  \<open>get_item(kind, index) -> optional {name, factory: position -> payload}\<close>.
\<close>

datatype palette_kind = PEntity | PEnvironment

fun node_kind_of :: "palette_kind \<Rightarrow> node_kind" where
  "node_kind_of PEntity = Entity"
| "node_kind_of PEnvironment = Environment"

text \<open>
  A payload is an object that may have a \<open>pos\<close> attribute (absent or None are read
  alike by \<open>getattr(payload, "pos", None)\<close>) and may have a \<open>radius\<close> attribute.
\<close>

record payload_obj =
  pos :: "(real \<times> real) option"
  radius :: "real option"

record palette_item =
  item_name :: string
  factory :: "real \<times> real \<Rightarrow> payload_obj"

type_synonym palette_registry = "palette_kind \<Rightarrow> int \<Rightarrow> palette_item option"

record node =
  nid :: int
  kind :: node_kind
  name :: string
  base_name :: string
  payload :: "payload_obj option"
  parent :: "int option"
  children :: "int list"

record editor_model =
  registry :: palette_registry
  nodes :: "(int \<times> node) list"
  node_order :: "int list"
  label_counts :: "string \<Rightarrow> int option"
  next_id :: int
  root_id :: int
  selected_id :: "int option"

text \<open>pygame.Rect: integer x, y, w, h; \<open>right = x + w\<close>, \<open>bottom = y + h\<close>.\<close>

record rect =
  rect_left :: int
  rect_top :: int
  rect_width :: int
  rect_height :: int

definition rect_right :: "rect \<Rightarrow> int" where
  "rect_right r = rect_left r + rect_width r"

definition rect_bottom :: "rect \<Rightarrow> int" where
  "rect_bottom r = rect_top r + rect_height r"

subsection \<open>Node queries\<close>

definition position :: "node \<Rightarrow> (real \<times> real) option" where
  "position n = (case payload n of None \<Rightarrow> None | Some p \<Rightarrow> pos p)"

definition node_radius :: "node \<Rightarrow> real" where
  "node_radius n =
     (case payload n of
        None \<Rightarrow> 0
      | Some p \<Rightarrow> (case radius p of None \<Rightarrow> 0 | Some r \<Rightarrow> r))"

subsection \<open>Python's str on an int\<close>

definition digit_char :: "nat \<Rightarrow> char" where
  "digit_char n = ''0123456789'' ! (n mod 10)"

function str_nat :: "nat \<Rightarrow> string" where
  "str_nat n = (if n < 10 then [digit_char n] else str_nat (n div 10) @ [digit_char n])"
  by pat_completeness auto
termination
  by (relation "measure (\<lambda>n. n)") auto

definition py_str :: "int \<Rightarrow> string" where
  "py_str i = (if i < 0 then CHR ''-'' # str_nat (nat (- i)) else str_nat (nat i))"

subsection \<open>Construction\<close>

definition root_node :: node where
  "root_node = \<lparr>nid = 0, kind = Root, name = ''Scene Root'', base_name = ''Scene'',
                 payload = None, parent = None, children = []\<rparr>"

definition create_root :: "editor_model \<Rightarrow> int \<times> editor_model" where
  "create_root s = (nid root_node, s\<lparr>nodes := AList.update (nid root_node) root_node (nodes s)\<rparr>)"

definition init_model :: "palette_registry \<Rightarrow> editor_model" where
  "init_model reg =
     (let s0 = \<lparr>registry = reg, nodes = [], node_order = [], label_counts = Map.empty,
                next_id = 1, root_id = 0, selected_id = None\<rparr>;
          (r, s1) = create_root s0
      in s1\<lparr>root_id := r, selected_id := None\<rparr>)"

subsection \<open>Spawning\<close>

fun allowed :: "palette_kind \<Rightarrow> node_kind list" where
  "allowed PEntity = [Environment]"
| "allowed PEnvironment = [Root, Entity]"

definition parent_allows :: "editor_model \<Rightarrow> int \<Rightarrow> palette_kind \<Rightarrow> bool" where
  "parent_allows s parent_id child_kind =
     (case map_of (nodes s) parent_id of
        None \<Rightarrow> False
      | Some par \<Rightarrow> kind par \<in> set (allowed child_kind))"

fun first_allowed :: "editor_model \<Rightarrow> palette_kind \<Rightarrow> int option list \<Rightarrow> int option" where
  "first_allowed s child_kind [] = None"
| "first_allowed s child_kind (None # cs) = first_allowed s child_kind cs"
| "first_allowed s child_kind (Some c # cs) =
     (if parent_allows s c child_kind then Some c else first_allowed s child_kind cs)"

definition resolve_parent :: "editor_model \<Rightarrow> palette_kind \<Rightarrow> int option \<Rightarrow> int option" where
  "resolve_parent s child_kind parent_hint =
     (let candidates = [parent_hint];
          candidates = (if selected_id s \<notin> set candidates
                        then candidates @ [selected_id s] else candidates);
          candidates = candidates @ [Some (root_id s)]
      in first_allowed s child_kind candidates)"

definition attach_child :: "editor_model \<Rightarrow> int \<Rightarrow> int \<Rightarrow> editor_model" where
  "attach_child s parent_id child_id =
     (case map_of (nodes s) parent_id of
        None \<Rightarrow> s
      | Some par \<Rightarrow>
          s\<lparr>nodes := AList.update parent_id (par\<lparr>children := children par @ [child_id]\<rparr>) (nodes s)\<rparr>)"

definition make_label :: "editor_model \<Rightarrow> string \<Rightarrow> string \<times> editor_model" where
  "make_label s base =
     (let count = (case label_counts s base of None \<Rightarrow> 0 | Some c \<Rightarrow> c);
          s' = s\<lparr>label_counts := (label_counts s)(base \<mapsto> count + 1)\<rparr>
      in (if count = 0 then base else base @ '' #'' @ py_str (count + 1), s'))"

definition spawn_from_palette ::
  "editor_model \<Rightarrow> palette_kind \<Rightarrow> int \<Rightarrow> int \<times> int \<Rightarrow> int option \<Rightarrow> node option \<times> editor_model" where
  "spawn_from_palette s knd idx position_xy parent_hint =
     (case registry s knd idx of
        None \<Rightarrow> (None, s)
      | Some item \<Rightarrow>
          (case resolve_parent s knd parent_hint of
             None \<Rightarrow> (None, s)
           | Some parent_id \<Rightarrow>
               (let pl = factory item (of_int (fst position_xy), of_int (snd position_xy));
                    (label, s1) = make_label s (item_name item);
                    new_node = \<lparr>nid = next_id s1, kind = node_kind_of knd, name = label,
                                base_name = item_name item, payload = Some pl,
                                parent = Some parent_id, children = []\<rparr>;
                    s2 = s1\<lparr>nodes := AList.update (nid new_node) new_node (nodes s1)\<rparr>;
                    s3 = s2\<lparr>node_order := node_order s2 @ [nid new_node]\<rparr>;
                    s4 = attach_child s3 parent_id (nid new_node);
                    s5 = s4\<lparr>next_id := next_id s4 + 1\<rparr>;
                    s6 = s5\<lparr>selected_id := Some (nid new_node)\<rparr>
                in (map_of (nodes s6) (nid new_node), s6))))"

subsection \<open>Queries\<close>

definition iter_drawable_nodes :: "editor_model \<Rightarrow> node list" where
  "iter_drawable_nodes s =
     List.map_filter
       (\<lambda>node_id. case map_of (nodes s) node_id of
                    None \<Rightarrow> None
                  | Some n \<Rightarrow> (if payload n = None then None else Some n))
       (node_order s)"

definition selected_node :: "editor_model \<Rightarrow> node option" where
  "selected_node s =
     (case selected_id s of None \<Rightarrow> None | Some i \<Rightarrow> map_of (nodes s) i)"

subsection \<open>Selection and movement\<close>

definition select_node :: "editor_model \<Rightarrow> int option \<Rightarrow> editor_model" where
  "select_node s node_id =
     (case node_id of
        None \<Rightarrow> s\<lparr>selected_id := None\<rparr>
      | Some i \<Rightarrow>
          (if map_of (nodes s) i = None then s\<lparr>selected_id := None\<rparr>
           else if i = root_id s then s\<lparr>selected_id := None\<rparr>
           else s\<lparr>selected_id := Some i\<rparr>))"

definition dist2 :: "int \<times> int \<Rightarrow> real \<times> real \<Rightarrow> real" where
  "dist2 mouse_pos p =
     (let dx = of_int (fst mouse_pos) - fst p;
          dy = of_int (snd mouse_pos) - snd p
      in dx * dx + dy * dy)"

text \<open>The loop of \<open>select_at_position\<close>, carrying \<open>best_id\<close> and \<open>best_d2\<close>.\<close>

fun scan_nearest :: "int \<times> int \<Rightarrow> node list \<Rightarrow> int option \<Rightarrow> real option \<Rightarrow> int option" where
  "scan_nearest mouse_pos [] best_id best_d2 = best_id"
| "scan_nearest mouse_pos (n # ns) best_id best_d2 =
     (case position n of
        None \<Rightarrow> scan_nearest mouse_pos ns best_id best_d2
      | Some p \<Rightarrow>
          (let d2 = dist2 mouse_pos p in
           if (case best_d2 of None \<Rightarrow> True | Some b \<Rightarrow> d2 < b)
           then scan_nearest mouse_pos ns (Some (nid n)) (Some d2)
           else scan_nearest mouse_pos ns best_id best_d2))"

definition select_at_position :: "editor_model \<Rightarrow> int \<times> int \<Rightarrow> int option \<times> editor_model" where
  "select_at_position s mouse_pos =
     (let best_id = scan_nearest mouse_pos (iter_drawable_nodes s) None None
      in (best_id, select_node s best_id))"

definition move_selected_within :: "editor_model \<Rightarrow> rect \<Rightarrow> real \<times> real \<Rightarrow> editor_model" where
  "move_selected_within s canvas_rect desired =
     (case selected_id s of
        None \<Rightarrow> s
      | Some i \<Rightarrow>
     (case map_of (nodes s) i of
        None \<Rightarrow> s
      | Some n \<Rightarrow>
     (case payload n of
        None \<Rightarrow> s
      | Some pl \<Rightarrow>
     (case pos pl of
        None \<Rightarrow> s
      | Some p \<Rightarrow>
          (let r = node_radius n;
               left = of_int (rect_left canvas_rect) + r;
               right = of_int (rect_right canvas_rect) - r;
               top = of_int (rect_top canvas_rect) + r;
               bottom = of_int (rect_bottom canvas_rect) - r;
               p' = (max left (min right (fst desired)), max top (min bottom (snd desired)))
           in s\<lparr>nodes := AList.update i (n\<lparr>payload := Some (pl\<lparr>pos := Some p'\<rparr>)\<rparr>) (nodes s)\<rparr>)))))"

subsection \<open>Deletion\<close>

text \<open>
  \<open>_remove_subtree\<close> pops the node, recurses into a copy of its children list (the loop
  is \<open>remove_children\<close>, threading the model through the calls), then filters the id out
  of the parent's children if the parent is still in the table, and out of the
  creation order.
\<close>

function remove_subtree :: "int \<Rightarrow> editor_model \<Rightarrow> editor_model"
  and remove_children :: "int list \<Rightarrow> editor_model \<Rightarrow> editor_model" where
  "remove_subtree node_id s =
     (case map_of (nodes s) node_id of
        None \<Rightarrow> s
      | Some n \<Rightarrow>
          (let s1 = remove_children (children n) (s\<lparr>nodes := AList.delete node_id (nodes s)\<rparr>);
               s2 = (case parent n of
                       None \<Rightarrow> s1
                     | Some p \<Rightarrow>
                         (case map_of (nodes s1) p of
                            None \<Rightarrow> s1
                          | Some par \<Rightarrow>
                              s1\<lparr>nodes := AList.update p
                                   (par\<lparr>children := filter (\<lambda>cid. cid \<noteq> node_id) (children par)\<rparr>)
                                   (nodes s1)\<rparr>))
           in s2\<lparr>node_order := filter (\<lambda>i. i \<noteq> node_id) (node_order s2)\<rparr>))"
| "remove_children [] s = s"
| "remove_children (c # cs) s = remove_children cs (remove_subtree c s)"
  by pat_completeness auto

lemma length_delete_le: "length (AList.delete k al) \<le> length al"
  by (simp add: AList.delete_eq)

lemma length_delete_less: "map_of al k = Some v \<Longrightarrow> length (AList.delete k al) < length al"
  by (induction al) (auto simp: less_Suc_eq_le length_delete_le split: if_splits)

lemma length_update_present: "map_of al k = Some v \<Longrightarrow> length (AList.update k w al) = length al"
  by (induction al) (auto split: if_splits)

lemma remove_dom_length:
  "remove_subtree_remove_children_dom (Inl (x, s)) \<Longrightarrow>
     length (nodes (remove_subtree x s)) \<le> length (nodes s)"
  "remove_subtree_remove_children_dom (Inr (cs, s)) \<Longrightarrow>
     length (nodes (remove_children cs s)) \<le> length (nodes s)"
proof (induction x s and cs s rule: remove_subtree_remove_children.pinduct)
  case (1 node_id s)
  show ?case
  proof (cases "map_of (nodes s) node_id")
    case None
    with 1(1) show ?thesis by (simp add: remove_subtree.psimps)
  next
    case (Some n)
    let ?s0 = "s\<lparr>nodes := AList.delete node_id (nodes s)\<rparr>"
    let ?s1 = "remove_children (children n) ?s0"
    have "length (nodes ?s1) \<le> length (nodes ?s0)" using 1(2)[OF Some] .
    also have "\<dots> \<le> length (nodes s)" by (simp add: length_delete_le)
    finally have le: "length (nodes ?s1) \<le> length (nodes s)" .
    show ?thesis using 1(1) Some le
      by (auto simp: remove_subtree.psimps Let_def length_update_present split: option.splits)
  qed
next
  case (2 s)
  then show ?case by (simp add: remove_children.psimps)
next
  case (3 c cs s)
  then show ?case by (simp add: remove_children.psimps)
qed

termination remove_subtree
proof (relation "measures [\<lambda>a. case a of Inl (x, s) \<Rightarrow> length (nodes s) | Inr (cs, s) \<Rightarrow> length (nodes s),
                           \<lambda>a. case a of Inl (x, s) \<Rightarrow> 0 | Inr (cs, s) \<Rightarrow> Suc (length cs)]", goal_cases)
  case 1
  show ?case by simp
next
  case (2 node_id s n)
  then show ?case by (simp add: length_delete_less)
next
  case (3 c cs s)
  then show ?case by simp
next
  case (4 c cs s)
  then show ?case using remove_dom_length(1)[of c s] by (auto simp: le_less)
qed

definition delete_selected :: "editor_model \<Rightarrow> editor_model" where
  "delete_selected s =
     (case selected_node s of
        None \<Rightarrow> s
      | Some n \<Rightarrow>
          (let parent_id = parent n;
               s1 = remove_subtree (nid n) s
           in if (case parent_id of
                    None \<Rightarrow> False
                  | Some p \<Rightarrow> map_of (nodes s1) p \<noteq> None \<and> p \<noteq> root_id s1)
              then s1\<lparr>selected_id := parent_id\<rparr>
              else if node_order s1 \<noteq> []
              then s1\<lparr>selected_id := Some (last (node_order s1))\<rparr>
              else s1\<lparr>selected_id := None\<rparr>))"

section \<open>Sequences of operations\<close>

text \<open>
  The public operations as the owning editor calls them, the run of a sequence of calls
  (collecting the nodes the spawns return, in order) and the model states reachable from
  initialisation.
\<close>

datatype op =
    Spawn palette_kind int "int \<times> int" "int option"
  | SelectNode "int option"
  | SelectAtPosition "int \<times> int"
  | MoveSelectedWithin rect "real \<times> real"
  | DeleteSelected

fun apply_op :: "editor_model \<Rightarrow> op \<Rightarrow> node option \<times> editor_model" where
  "apply_op s (Spawn knd idx xy hint) = spawn_from_palette s knd idx xy hint"
| "apply_op s (SelectNode i) = (None, select_node s i)"
| "apply_op s (SelectAtPosition xy) = (None, snd (select_at_position s xy))"
| "apply_op s (MoveSelectedWithin b d) = (None, move_selected_within s b d)"
| "apply_op s DeleteSelected = (None, delete_selected s)"

fun run :: "editor_model \<Rightarrow> op list \<Rightarrow> node list \<times> editor_model" where
  "run s [] = ([], s)"
| "run s (x # xs) =
     (let (r, s') = apply_op s x;
          (created, s'') = run s' xs
      in ((case r of None \<Rightarrow> [] | Some n \<Rightarrow> [n]) @ created, s''))"

inductive reachable :: "editor_model \<Rightarrow> bool" where
  reachable_init: "reachable (init_model reg)"
| reachable_step: "reachable s \<Longrightarrow> reachable (snd (apply_op s x))"

section \<open>Definitions used to state the claims\<close>

text \<open>A small palette for the concrete instances below.\<close>

definition example_registry :: palette_registry where
  "example_registry knd idx =
     (if idx = 0 then
        (case knd of
           PEnvironment \<Rightarrow> Some \<lparr>item_name = ''Zone'', factory = (\<lambda>p. \<lparr>pos = Some p, radius = None\<rparr>)\<rparr>
         | PEntity \<Rightarrow> Some \<lparr>item_name = ''Rock'', factory = (\<lambda>p. \<lparr>pos = Some p, radius = Some 8\<rparr>)\<rparr>)
      else None)"

text \<open>
  The candidate list and the eligibility table as the specification words them:
  the hint, then the selection if it differs from the hint, then the root; an entity
  needs an environment parent, an environment needs the root or an entity.
\<close>

definition spec_candidates :: "editor_model \<Rightarrow> int option \<Rightarrow> int list" where
  "spec_candidates s parent_hint =
     (case parent_hint of None \<Rightarrow> [] | Some h \<Rightarrow> [h]) @
     (case selected_id s of
        None \<Rightarrow> []
      | Some c \<Rightarrow> (if Some c = parent_hint then [] else [c])) @
     [root_id s]"

definition spec_eligible :: "editor_model \<Rightarrow> palette_kind \<Rightarrow> int \<Rightarrow> bool" where
  "spec_eligible s child_kind p =
     (case map_of (nodes s) p of
        None \<Rightarrow> False
      | Some par \<Rightarrow>
          (case child_kind of
             PEntity \<Rightarrow> kind par = Environment
           | PEnvironment \<Rightarrow> kind par = Root \<or> kind par = Entity))"

text \<open>
  The node a successful spawn creates, as \<open>spawn_from_palette\<close> builds it. The
  children are empty unless the resolved parent is the new id itself, which needs an id
  counter that points at an existing node.
\<close>

definition spawned_node :: "editor_model \<Rightarrow> palette_kind \<Rightarrow> palette_item \<Rightarrow> int \<times> int \<Rightarrow> int \<Rightarrow> node" where
  "spawned_node s knd item xy parent_id =
     \<lparr>nid = next_id s, kind = node_kind_of knd, name = fst (make_label s (item_name item)),
      base_name = item_name item,
      payload = Some (factory item (of_int (fst xy), of_int (snd xy))),
      parent = Some parent_id,
      children = (if parent_id = next_id s then [next_id s] else [])\<rparr>"


text \<open>
  Two concrete scenes built through the public operations: an environment under the
  root, then an entity inside that environment.
\<close>

definition example_env :: editor_model where
  "example_env = snd (spawn_from_palette (init_model example_registry) PEnvironment 0 (10, 10) None)"

definition example_scene :: editor_model where
  "example_scene = snd (spawn_from_palette example_env PEntity 0 (20, 30) None)"

text \<open>
  The selected node's position and radius, and the interval the specification gives for
  a bounded move: \<open>[bound.min + radius, bound.max - radius]\<close> on each axis.
\<close>

definition selected_position :: "editor_model \<Rightarrow> (real \<times> real) option" where
  "selected_position s = (case selected_node s of None \<Rightarrow> None | Some n \<Rightarrow> position n)"

definition selected_radius :: "editor_model \<Rightarrow> real" where
  "selected_radius s = (case selected_node s of None \<Rightarrow> 0 | Some n \<Rightarrow> node_radius n)"

definition within_bound :: "rect \<Rightarrow> real \<Rightarrow> real \<times> real \<Rightarrow> bool" where
  "within_bound b r p \<longleftrightarrow>
     of_int (rect_left b) + r \<le> fst p \<and> fst p \<le> of_int (rect_right b) - r \<and>
     of_int (rect_top b) + r \<le> snd p \<and> snd p \<le> of_int (rect_bottom b) - r"

text \<open>
  The per-base-name counter (\<open>_label_counts.get(base, 0)\<close>) and the label the
  specification gives to the n-th spawn of a base name.
\<close>

definition label_count :: "editor_model \<Rightarrow> string \<Rightarrow> int" where
  "label_count s b = (case label_counts s b of None \<Rightarrow> 0 | Some c \<Rightarrow> c)"

definition spec_label :: "string \<Rightarrow> int \<Rightarrow> string" where
  "spec_label b n = (if n = 1 then b else b @ '' #'' @ py_str n)"

text \<open>
  The label scenario of the specification: three rocks in one environment, the second
  deleted, then a fourth rock.
\<close>

definition rock_ops :: "op list" where
  "rock_ops = [Spawn PEnvironment 0 (10, 10) None, Spawn PEntity 0 (1, 1) (Some 1),
     Spawn PEntity 0 (2, 2) (Some 1), Spawn PEntity 0 (3, 3) (Some 1),
     SelectNode (Some 3), DeleteSelected, Spawn PEntity 0 (4, 4) (Some 1)]"

text \<open>
  Notions for the subtree removal, on the table read as a map: the child edges between
  ids of the table, the ids reachable from a set of start ids, the parent field of an
  id, and the table with a set of ids removed and, in each remaining node's children,
  the removed ids whose parent field is that node filtered out.
\<close>

definition child_edges :: "(int \<rightharpoonup> node) \<Rightarrow> (int \<times> int) set" where
  "child_edges m = {(a, b). \<exists>n. m a = Some n \<and> b \<in> set (children n) \<and> m b \<noteq> None}"

definition reach :: "(int \<rightharpoonup> node) \<Rightarrow> int set \<Rightarrow> int set" where
  "reach m X = (child_edges m)\<^sup>* `` {x \<in> X. m x \<noteq> None}"

definition parent_of :: "(int \<rightharpoonup> node) \<Rightarrow> int \<Rightarrow> int option" where
  "parent_of m c = (case m c of None \<Rightarrow> None | Some n \<Rightarrow> parent n)"

definition pruned :: "(int \<rightharpoonup> node) \<Rightarrow> int set \<Rightarrow> (int \<rightharpoonup> node)" where
  "pruned m R k =
     (if k \<in> R then None
      else map_option
             (\<lambda>n. n\<lparr>children := filter (\<lambda>c. \<not> (c \<in> R \<and> parent_of m c = Some k)) (children n)\<rparr>)
             (m k))"

text \<open>
  The last table write of \<open>_remove_subtree\<close>, on the map: the parent's children with
  the removed id filtered out, when the node has a parent and the parent is still in
  the table.
\<close>

definition detach :: "(int \<rightharpoonup> node) \<Rightarrow> int \<Rightarrow> int option \<Rightarrow> (int \<rightharpoonup> node)" where
  "detach m x par =
     (case par of
        None \<Rightarrow> m
      | Some p \<Rightarrow>
          (case m p of
             None \<Rightarrow> m
           | Some pn \<Rightarrow> m(p \<mapsto> pn\<lparr>children := filter (\<lambda>cid. cid \<noteq> x) (children pn)\<rparr>)))"

section \<open>The invariant of reachable models\<close>

text \<open>
  The table has one entry per id, each stored under its own id, below the id counter;
  the root is node 0. Every other node has a payload, a parent in the table that lists
  it as a child, and every listed child is in the table with that parent. The creation
  order lists the non-root ids increasingly. The selection, if any, is a non-root id of
  the table.
\<close>

definition inv_table :: "editor_model \<Rightarrow> bool" where
  "inv_table s \<longleftrightarrow>
     distinct (map fst (nodes s)) \<and> root_id s = 0 \<and> 0 < next_id s \<and>
     (\<exists>r. map_of (nodes s) 0 = Some r \<and> kind r = Root \<and> parent r = None \<and> payload r = None) \<and>
     (\<forall>k n. map_of (nodes s) k = Some n \<longrightarrow> nid n = k \<and> 0 \<le> k \<and> k < next_id s)"

definition inv_links :: "editor_model \<Rightarrow> bool" where
  "inv_links s \<longleftrightarrow>
     (\<forall>k n. map_of (nodes s) k = Some n \<longrightarrow> k \<noteq> 0 \<longrightarrow>
        payload n \<noteq> None \<and> kind n \<noteq> Root \<and>
        (\<exists>p pn. parent n = Some p \<and> map_of (nodes s) p = Some pn \<and> k \<in> set (children pn))) \<and>
     (\<forall>k n c. map_of (nodes s) k = Some n \<longrightarrow> c \<in> set (children n) \<longrightarrow>
        (\<exists>cn. map_of (nodes s) c = Some cn \<and> parent cn = Some k)) \<and>
     (\<forall>k n. map_of (nodes s) k = Some n \<longrightarrow> distinct (children n))"

definition inv_order :: "editor_model \<Rightarrow> bool" where
  "inv_order s \<longleftrightarrow>
     sorted (node_order s) \<and> distinct (node_order s) \<and>
     set (node_order s) = {k. map_of (nodes s) k \<noteq> None} - {0}"

definition inv_selected :: "editor_model \<Rightarrow> bool" where
  "inv_selected s \<longleftrightarrow>
     (case selected_id s of None \<Rightarrow> True | Some i \<Rightarrow> i \<noteq> root_id s \<and> map_of (nodes s) i \<noteq> None)"

definition wf_model :: "editor_model \<Rightarrow> bool" where
  "wf_model s \<longleftrightarrow> inv_table s \<and> inv_links s \<and> inv_order s \<and> inv_selected s"

section \<open>Basic facts about the operations\<close>

lemma map_of_attach_child:
  "map_of (nodes (attach_child s p c)) k =
     (if k = p then map_option (\<lambda>n. n\<lparr>children := children n @ [c]\<rparr>) (map_of (nodes s) p)
      else map_of (nodes s) k)"
  by (auto simp: attach_child_def update_conv' split: option.splits)

lemma attach_child_fields [simp]:
  "registry (attach_child s p c) = registry s"
  "node_order (attach_child s p c) = node_order s"
  "label_counts (attach_child s p c) = label_counts s"
  "next_id (attach_child s p c) = next_id s"
  "root_id (attach_child s p c) = root_id s"
  "selected_id (attach_child s p c) = selected_id s"
  by (auto simp: attach_child_def split: option.splits)

lemma make_label_fields [simp]:
  "registry (snd (make_label s b)) = registry s"
  "nodes (snd (make_label s b)) = nodes s"
  "node_order (snd (make_label s b)) = node_order s"
  "next_id (snd (make_label s b)) = next_id s"
  "root_id (snd (make_label s b)) = root_id s"
  "selected_id (snd (make_label s b)) = selected_id s"
  by (auto simp: make_label_def Let_def)

lemma spawn_success:
  assumes "registry s knd idx = Some item" "resolve_parent s knd hint = Some p"
  shows "fst (spawn_from_palette s knd idx xy hint) = Some (spawned_node s knd item xy p)"
  using assms
  by (auto simp: spawn_from_palette_def Let_def split_beta map_of_attach_child update_conv' spawned_node_def)

lemma spawn_failure:
  "registry s knd idx = None \<or> resolve_parent s knd hint = None \<Longrightarrow>
   spawn_from_palette s knd idx xy hint = (None, s)"
  by (auto simp: spawn_from_palette_def split: option.splits)

lemma spawn_none_iff:
  "fst (spawn_from_palette s knd idx xy hint) = None \<longleftrightarrow>
     registry s knd idx = None \<or> resolve_parent s knd hint = None"
  using spawn_success[of s knd idx _ hint] spawn_failure[of s knd idx hint xy]
  by (cases "registry s knd idx"; cases "resolve_parent s knd hint") auto

lemma init_nodes: "nodes (init_model reg) = [(0, root_node)]"
  by (simp add: init_model_def create_root_def root_node_def)

lemma init_fields [simp]:
  "registry (init_model reg) = reg"
  "node_order (init_model reg) = []"
  "label_counts (init_model reg) = Map.empty"
  "next_id (init_model reg) = 1"
  "root_id (init_model reg) = 0"
  "selected_id (init_model reg) = None"
  by (simp_all add: init_model_def create_root_def root_node_def)

lemma parent_allows_eligible: "parent_allows s p k = spec_eligible s k p"
  by (cases k) (auto simp: parent_allows_def spec_eligible_def split: option.splits)

lemma resolve_parent_find:
  "resolve_parent s k h = List.find (spec_eligible s k) (spec_candidates s h)"
  by (cases h; cases "selected_id s")
     (auto simp: resolve_parent_def spec_candidates_def Let_def parent_allows_eligible)

lemmas spawn_eval = spawn_from_palette_def example_registry_def resolve_parent_def
     parent_allows_def init_nodes root_node_def make_label_def Let_def attach_child_def

lemma example_env_nodes:
  "nodes example_env =
    [(0, \<lparr>nid = 0, kind = Root, name = ''Scene Root'', base_name = ''Scene'',
           payload = None, parent = None, children = [1]\<rparr>),
     (1, \<lparr>nid = 1, kind = Environment, name = ''Zone'', base_name = ''Zone'',
           payload = Some \<lparr>pos = Some (10, 10), radius = None\<rparr>, parent = Some 0, children = []\<rparr>)]"
  by (simp add: example_env_def spawn_eval)

lemma example_env_fields:
  "node_order example_env = [1]" "selected_id example_env = Some 1" "next_id example_env = 2"
  "root_id example_env = 0" "registry example_env = example_registry"
  "label_counts example_env = [''Zone'' \<mapsto> 1]"
  by (simp_all add: example_env_def spawn_eval)

lemma example_scene_nodes:
  "nodes example_scene =
    [(0, \<lparr>nid = 0, kind = Root, name = ''Scene Root'', base_name = ''Scene'',
           payload = None, parent = None, children = [1]\<rparr>),
     (1, \<lparr>nid = 1, kind = Environment, name = ''Zone'', base_name = ''Zone'',
           payload = Some \<lparr>pos = Some (10, 10), radius = None\<rparr>, parent = Some 0, children = [2]\<rparr>),
     (2, \<lparr>nid = 2, kind = Entity, name = ''Rock'', base_name = ''Rock'',
           payload = Some \<lparr>pos = Some (20, 30), radius = Some 8\<rparr>, parent = Some 1, children = []\<rparr>)]"
  by (simp add: example_scene_def spawn_from_palette_def example_registry_def resolve_parent_def
     parent_allows_def make_label_def Let_def attach_child_def example_env_nodes example_env_fields)

lemma example_scene_fields:
  "node_order example_scene = [1, 2]" "selected_id example_scene = Some 2" "next_id example_scene = 3"
  "root_id example_scene = 0" "registry example_scene = example_registry"
  "label_counts example_scene = [''Zone'' \<mapsto> 1, ''Rock'' \<mapsto> 1]"
  by (simp_all add: example_scene_def spawn_from_palette_def example_registry_def resolve_parent_def
     parent_allows_def make_label_def Let_def attach_child_def example_env_nodes example_env_fields)

lemma move_selected_within_unfold:
  assumes "selected_id s = Some i" "map_of (nodes s) i = Some n" "payload n = Some pl" "pos pl = Some p"
  shows "move_selected_within s b d =
     s\<lparr>nodes := AList.update i
        (n\<lparr>payload := Some (pl\<lparr>pos := Some
           (max (of_int (rect_left b) + node_radius n) (min (of_int (rect_right b) - node_radius n) (fst d)),
            max (of_int (rect_top b) + node_radius n) (min (of_int (rect_bottom b) - node_radius n) (snd d)))\<rparr>)\<rparr>)
        (nodes s)\<rparr>"
  using assms by (simp add: move_selected_within_def Let_def)

lemma move_selected_within_result:
  assumes "selected_node s = Some n" "position n = Some p"
  shows "selected_position (move_selected_within s b d) =
           Some (max (of_int (rect_left b) + node_radius n)
                     (min (of_int (rect_right b) - node_radius n) (fst d)),
                 max (of_int (rect_top b) + node_radius n)
                     (min (of_int (rect_bottom b) - node_radius n) (snd d)))"
    and "selected_radius (move_selected_within s b d) = node_radius n"
proof -
  from assms obtain i pl where h: "selected_id s = Some i" "map_of (nodes s) i = Some n"
      "payload n = Some pl" "pos pl = Some p"
    by (auto simp: selected_node_def position_def split: option.splits)
  note u = move_selected_within_unfold[OF h]
  show "selected_position (move_selected_within s b d) =
           Some (max (of_int (rect_left b) + node_radius n)
                     (min (of_int (rect_right b) - node_radius n) (fst d)),
                 max (of_int (rect_top b) + node_radius n)
                     (min (of_int (rect_bottom b) - node_radius n) (snd d)))"
    by (simp add: u selected_position_def selected_node_def h position_def update_conv')
  show "selected_radius (move_selected_within s b d) = node_radius n"
    by (simp add: u selected_radius_def selected_node_def h node_radius_def update_conv')
qed

lemma remove_subtree_fields:
  "registry (remove_subtree x s) = registry s \<and> label_counts (remove_subtree x s) = label_counts s \<and>
   next_id (remove_subtree x s) = next_id s \<and> root_id (remove_subtree x s) = root_id s \<and>
   selected_id (remove_subtree x s) = selected_id s"
  "registry (remove_children cs s) = registry s \<and> label_counts (remove_children cs s) = label_counts s \<and>
   next_id (remove_children cs s) = next_id s \<and> root_id (remove_children cs s) = root_id s \<and>
   selected_id (remove_children cs s) = selected_id s"
  by (induction x s and cs s rule: remove_subtree_remove_children.induct)
     (auto simp: Let_def split: option.splits)

lemma delete_selected_fields [simp]:
  "registry (delete_selected s) = registry s" "label_counts (delete_selected s) = label_counts s"
  "next_id (delete_selected s) = next_id s" "root_id (delete_selected s) = root_id s"
  by (auto simp: delete_selected_def Let_def remove_subtree_fields split: option.splits)

lemma select_node_fields [simp]:
  "registry (select_node s i) = registry s" "label_counts (select_node s i) = label_counts s"
  "next_id (select_node s i) = next_id s" "root_id (select_node s i) = root_id s"
  "nodes (select_node s i) = nodes s" "node_order (select_node s i) = node_order s"
  by (auto simp: select_node_def split: option.splits)

lemma select_at_position_fields [simp]:
  "registry (snd (select_at_position s xy)) = registry s"
  "label_counts (snd (select_at_position s xy)) = label_counts s"
  "next_id (snd (select_at_position s xy)) = next_id s"
  "root_id (snd (select_at_position s xy)) = root_id s"
  "nodes (snd (select_at_position s xy)) = nodes s"
  "node_order (snd (select_at_position s xy)) = node_order s"
  by (simp_all add: select_at_position_def Let_def)

lemma move_selected_within_fields [simp]:
  "registry (move_selected_within s b d) = registry s"
  "label_counts (move_selected_within s b d) = label_counts s"
  "next_id (move_selected_within s b d) = next_id s"
  "root_id (move_selected_within s b d) = root_id s"
  "node_order (move_selected_within s b d) = node_order s"
  "selected_id (move_selected_within s b d) = selected_id s"
  by (auto simp: move_selected_within_def Let_def split: option.splits)

lemma spawn_label_count:
  "label_count (snd (spawn_from_palette s knd idx xy hint)) b =
     (case fst (spawn_from_palette s knd idx xy hint) of
        None \<Rightarrow> label_count s b
      | Some n \<Rightarrow> (if base_name n = b then label_count s b + 1 else label_count s b))"
  by (cases "registry s knd idx"; cases "resolve_parent s knd hint")
     (auto simp: spawn_from_palette_def Let_def split_beta label_count_def make_label_def
        map_of_attach_child update_conv')

lemma spawn_label_name:
  "fst (spawn_from_palette s knd idx xy hint) = Some n \<Longrightarrow>
     name n = spec_label (base_name n) (label_count s (base_name n) + 1)"
  by (cases "registry s knd idx"; cases "resolve_parent s knd hint")
     (auto simp: spawn_success spawn_failure spawned_node_def make_label_def Let_def
        label_count_def spec_label_def)

lemma apply_op_label_count:
  "label_count (snd (apply_op s x)) b =
     (case fst (apply_op s x) of
        None \<Rightarrow> label_count s b
      | Some n \<Rightarrow> (if base_name n = b then label_count s b + 1 else label_count s b))"
  by (cases x; simp add: spawn_label_count; simp add: label_count_def)

lemma apply_op_label_name:
  "fst (apply_op s x) = Some n \<Longrightarrow> name n = spec_label (base_name n) (label_count s (base_name n) + 1)"
  by (cases x) (simp_all add: spawn_label_name)

lemma run_labels:
  "map name (filter (\<lambda>n. base_name n = b) (fst (run s ops))) =
     map (\<lambda>k. spec_label b (label_count s b + int k))
         [1 ..< Suc (length (filter (\<lambda>n. base_name n = b) (fst (run s ops))))]"
proof (induction ops arbitrary: s)
  case Nil
  then show ?case by simp
next
  case (Cons x xs)
  obtain r s' where ap: "apply_op s x = (r, s')" by (cases "apply_op s x")
  obtain created s'' where rn: "run s' xs = (created, s'')" by (cases "run s' xs")
  let ?m = "length (filter (\<lambda>n. base_name n = b) created)"
  have ih: "map name (filter (\<lambda>n. base_name n = b) created) =
     map (\<lambda>k. spec_label b (label_count s' b + int k)) [1 ..< Suc ?m]"
    using Cons.IH[of s'] rn by simp
  have lc: "label_count s' b =
     (case r of None \<Rightarrow> label_count s b
      | Some n \<Rightarrow> (if base_name n = b then label_count s b + 1 else label_count s b))"
    using apply_op_label_count[of s x b] ap by simp
  show ?case
  proof (cases r)
    case None
    then show ?thesis using ap rn ih lc by simp
  next
    case (Some n)
    show ?thesis
    proof (cases "base_name n = b")
      case False
      then show ?thesis using ap rn ih lc Some by simp
    next
      case True
      have nm: "name n = spec_label b (label_count s b + 1)"
        using apply_op_label_name[of s x n] ap Some True by simp
      have "map (\<lambda>k. spec_label b (label_count s b + int k)) [1 ..< Suc (Suc ?m)]
            = spec_label b (label_count s b + 1) #
              map (\<lambda>k. spec_label b (label_count s b + 1 + int k)) [1 ..< Suc ?m]"
      proof -
        have "[1 ..< Suc (Suc ?m)] = 1 # [Suc 1 ..< Suc (Suc ?m)]"
          by (rule upt_conv_Cons) simp
        also have "[Suc 1 ..< Suc (Suc ?m)] = map Suc [1 ..< Suc ?m]"
          by (rule map_Suc_upt[symmetric])
        finally have "[1 ..< Suc (Suc ?m)] = 1 # map Suc [1 ..< Suc ?m]" .
        then show ?thesis by (simp add: comp_def algebra_simps del: upt_Suc)
      qed
      then show ?thesis using ap rn ih lc Some True nm by (simp del: upt_Suc)
    qed
  qed
qed

lemma init_label_count: "label_count (init_model reg) b = 0"
  by (simp add: label_count_def)

lemma run_label_count_mono: "label_count s b \<le> label_count (snd (run s ops)) b"
proof (induction ops arbitrary: s)
  case Nil
  then show ?case by simp
next
  case (Cons x xs)
  have "label_count s b \<le> label_count (snd (apply_op s x)) b"
    by (simp add: apply_op_label_count split: option.splits)
  also have "\<dots> \<le> label_count (snd (run (snd (apply_op s x)) xs)) b"
    by (rule Cons.IH)
  finally show ?case by (simp add: split_beta)
qed

lemma rock_labels:
  "map name (filter (\<lambda>n. base_name n = ''Rock'') (fst (run (init_model example_registry) rock_ops)))
   = [''Rock'', ''Rock #2'', ''Rock #3'', ''Rock #4'']"
  by code_simp

section \<open>Reachability lemmas for the subtree removal\<close>

lemma rtrancl_avoid_start:
  assumes "(x, y) \<in> E\<^sup>*"
  shows "y = x \<or> (\<exists>c. (x, c) \<in> E \<and> c \<noteq> x \<and> (c, y) \<in> {(a, b). (a, b) \<in> E \<and> a \<noteq> x \<and> b \<noteq> x}\<^sup>*)"
  using assms
proof (induction rule: rtrancl_induct)
  case base
  then show ?case by simp
next
  case (step y z)
  let ?E0 = "{(a, b). (a, b) \<in> E \<and> a \<noteq> x \<and> b \<noteq> x}"
  show ?case
  proof (cases "z = x")
    case True
    then show ?thesis by simp
  next
    case zx: False
    show ?thesis
    proof (cases "y = x")
      case True
      with step.hyps(2) zx have "(x, z) \<in> E \<and> z \<noteq> x \<and> (z, z) \<in> ?E0\<^sup>*" by simp
      then show ?thesis by blast
    next
      case False
      with step.IH obtain c where c: "(x, c) \<in> E" "c \<noteq> x" "(c, y) \<in> ?E0\<^sup>*" by blast
      from step.hyps(2) False zx have "(y, z) \<in> ?E0" by simp
      with c(3) have "(c, z) \<in> ?E0\<^sup>*" by (rule rtrancl_into_rtrancl)
      with c(1,2) show ?thesis by blast
    qed
  qed
qed

lemma rtrancl_outside_closed:
  assumes "(x, y) \<in> E\<^sup>*" and "x \<notin> A" and closed: "\<And>a b. a \<in> A \<Longrightarrow> (a, b) \<in> E \<Longrightarrow> b \<in> A"
  shows "y \<in> A \<or> (x, y) \<in> {(a, b). (a, b) \<in> E \<and> a \<notin> A \<and> b \<notin> A}\<^sup>*"
  using assms(1)
proof (induction rule: rtrancl_induct)
  case base
  then show ?case by simp
next
  case (step y z)
  let ?E1 = "{(a, b). (a, b) \<in> E \<and> a \<notin> A \<and> b \<notin> A}"
  show ?case
  proof (cases "z \<in> A")
    case True
    then show ?thesis by simp
  next
    case zA: False
    have yA: "y \<notin> A" using closed[of y z] step.hyps(2) zA by blast
    with step.IH have "(x, y) \<in> ?E1\<^sup>*" by simp
    moreover have "(y, z) \<in> ?E1" using step.hyps(2) yA zA by simp
    ultimately show ?thesis by (auto intro: rtrancl_into_rtrancl)
  qed
qed

lemma reach_in_dom: "y \<in> reach m X \<Longrightarrow> m y \<noteq> None"
proof -
  assume "y \<in> reach m X"
  then obtain x where x: "m x \<noteq> None" "(x, y) \<in> (child_edges m)\<^sup>*"
    by (auto simp: reach_def)
  from x(2) x(1) show ?thesis
    by (induction rule: rtrancl_induct) (auto simp: child_edges_def)
qed

lemma reach_empty [simp]: "reach m {} = {}"
  by (simp add: reach_def)

lemma reach_absent: "m x = None \<Longrightarrow> reach m {x} = {}"
  by (auto simp: reach_def)

lemma reach_closed: "a \<in> reach m X \<Longrightarrow> (a, b) \<in> child_edges m \<Longrightarrow> b \<in> reach m X"
  by (auto simp: reach_def intro: rtrancl_into_rtrancl)

lemma pruned_empty [simp]: "pruned m {} = m"
  by (rule ext) (simp add: pruned_def option.map_ident)

lemma child_edges_delete:
  "child_edges (m(x := None)) = {(a, b). (a, b) \<in> child_edges m \<and> a \<noteq> x \<and> b \<noteq> x}"
  by (auto simp: child_edges_def)

lemma child_edges_pruned:
  "child_edges (pruned m R) = {(a, b). (a, b) \<in> child_edges m \<and> a \<notin> R \<and> b \<notin> R}"
  by (auto simp: child_edges_def pruned_def split: if_splits)

lemma reach_step:
  assumes "m x = Some n"
  shows "reach m {x} = insert x (reach (m(x := None)) (set (children n)))"
proof (intro equalityI subsetI)
  fix y assume "y \<in> reach m {x}"
  then have xy: "(x, y) \<in> (child_edges m)\<^sup>*" by (auto simp: reach_def)
  from rtrancl_avoid_start[OF xy]
  show "y \<in> insert x (reach (m(x := None)) (set (children n)))"
  proof
    assume "y = x" then show ?thesis by simp
  next
    assume "\<exists>c. (x, c) \<in> child_edges m \<and> c \<noteq> x \<and>
      (c, y) \<in> {(a, b). (a, b) \<in> child_edges m \<and> a \<noteq> x \<and> b \<noteq> x}\<^sup>*"
    then obtain c where c: "(x, c) \<in> child_edges m" "c \<noteq> x"
      "(c, y) \<in> (child_edges (m(x := None)))\<^sup>*"
      by (auto simp: child_edges_delete)
    from c(1) assms have "c \<in> set (children n)" "m c \<noteq> None"
      by (auto simp: child_edges_def)
    with c(2,3) have "y \<in> reach (m(x := None)) (set (children n))"
      by (auto simp: reach_def)
    then show ?thesis by simp
  qed
next
  fix y assume y: "y \<in> insert x (reach (m(x := None)) (set (children n)))"
  show "y \<in> reach m {x}"
  proof (cases "y = x")
    case True
    then show ?thesis using assms by (auto simp: reach_def)
  next
    case False
    with y obtain c where c: "c \<in> set (children n)" "c \<noteq> x" "m c \<noteq> None"
      "(c, y) \<in> (child_edges (m(x := None)))\<^sup>*"
      by (auto simp: reach_def split: if_splits)
    have "child_edges (m(x := None)) \<subseteq> child_edges m"
      by (auto simp: child_edges_delete)
    from rtrancl_mono[OF this] c(4) have "(c, y) \<in> (child_edges m)\<^sup>*" by blast
    moreover have "(x, c) \<in> child_edges m" using assms c by (auto simp: child_edges_def)
    ultimately have "(x, y) \<in> (child_edges m)\<^sup>*" by (rule converse_rtrancl_into_rtrancl[rotated])
    then show ?thesis using assms by (auto simp: reach_def)
  qed
qed

lemma reach_insert:
  "reach m (insert c X) = reach m {c} \<union> reach (pruned m (reach m {c})) X"
proof (intro equalityI subsetI)
  let ?A = "reach m {c}"
  fix y assume "y \<in> reach m (insert c X)"
  then obtain x where x: "x = c \<or> x \<in> X" "m x \<noteq> None" "(x, y) \<in> (child_edges m)\<^sup>*"
    by (auto simp: reach_def)
  show "y \<in> ?A \<union> reach (pruned m ?A) X"
  proof (cases "x \<in> ?A")
    case True
    from x(3) True have "y \<in> ?A"
      by (induction rule: rtrancl_induct) (auto intro: reach_closed)
    then show ?thesis by simp
  next
    case False
    then have "x \<noteq> c" using x(2) by (auto simp: reach_def)
    with x(1) have xX: "x \<in> X" by simp
    from rtrancl_outside_closed[OF x(3) False, OF reach_closed]
    have "y \<in> ?A \<or> (x, y) \<in> (child_edges (pruned m ?A))\<^sup>*"
      by (simp add: child_edges_pruned)
    moreover have "pruned m ?A x \<noteq> None" using False x(2) by (auto simp: pruned_def)
    ultimately show ?thesis using xX by (auto simp: reach_def)
  qed
next
  let ?A = "reach m {c}"
  fix y assume "y \<in> ?A \<union> reach (pruned m ?A) X"
  then show "y \<in> reach m (insert c X)"
  proof
    assume "y \<in> ?A" then show ?thesis by (auto simp: reach_def)
  next
    assume "y \<in> reach (pruned m ?A) X"
    then obtain x where x: "x \<in> X" "pruned m ?A x \<noteq> None" "(x, y) \<in> (child_edges (pruned m ?A))\<^sup>*"
      by (auto simp: reach_def)
    have "child_edges (pruned m ?A) \<subseteq> child_edges m" by (auto simp: child_edges_pruned)
    from rtrancl_mono[OF this] x(3) have "(x, y) \<in> (child_edges m)\<^sup>*" by blast
    moreover have "m x \<noteq> None" using x(2) by (auto simp: pruned_def split: if_splits)
    ultimately show ?thesis using x(1) by (auto simp: reach_def)
  qed
qed

lemma parent_of_pruned: "parent_of (pruned m R) c = (if c \<in> R then None else parent_of m c)"
  by (auto simp: parent_of_def pruned_def split: option.splits)

lemma parent_of_delete: "parent_of (m(x := None)) c = (if c = x then None else parent_of m c)"
  by (simp add: parent_of_def)

lemma children_filter_cong:
  assumes "\<And>c. c \<in> set (children a) \<Longrightarrow> P c = Q c"
  shows "a\<lparr>children := filter P (children a)\<rparr> = a\<lparr>children := filter Q (children a)\<rparr>"
proof -
  have "filter P (children a) = filter Q (children a)"
    by (rule filter_cong) (auto simp: assms)
  then show ?thesis by simp
qed

lemma pruned_pruned:
  assumes "R2 \<inter> R1 = {}"
  shows "pruned (pruned m R1) R2 = pruned m (R1 \<union> R2)"
proof (rule ext)
  fix k
  show "pruned (pruned m R1) R2 k = pruned m (R1 \<union> R2) k"
  proof (cases "k \<in> R1 \<union> R2")
    case True
    then show ?thesis by (auto simp: pruned_def)
  next
    case False
    show ?thesis
    proof (cases "m k")
      case None
      then show ?thesis using False by (simp add: pruned_def)
    next
      case (Some a)
      have "pruned (pruned m R1) R2 k =
          Some (a\<lparr>children := filter (\<lambda>c. \<not> (c \<in> R2 \<and> parent_of (pruned m R1) c = Some k) \<and>
                                        \<not> (c \<in> R1 \<and> parent_of m c = Some k)) (children a)\<rparr>)"
        using False Some by (simp add: pruned_def conj_commute)
      also have "\<dots> = Some (a\<lparr>children := filter (\<lambda>c. \<not> (c \<in> R1 \<union> R2 \<and> parent_of m c = Some k)) (children a)\<rparr>)"
        using assms by (auto intro!: children_filter_cong simp: parent_of_pruned)
      also have "\<dots> = pruned m (R1 \<union> R2) k"
        using False Some by (simp add: pruned_def)
      finally show ?thesis .
    qed
  qed
qed

lemma detach_pruned_delete:
  assumes mx: "m x = Some n" and R: "x \<notin> R"
  shows "detach (pruned (m(x := None)) R) x (parent n) = pruned m (insert x R)"
proof (rule ext)
  fix k
  let ?m0 = "m(x := None)"
  have px: "parent_of m x = parent n" using mx by (simp add: parent_of_def)
  show "detach (pruned ?m0 R) x (parent n) k = pruned m (insert x R) k"
  proof (cases "k = x \<or> k \<in> R")
    case True
    then show ?thesis
      by (auto simp: detach_def pruned_def split: option.splits)
  next
    case False
    then have k: "k \<noteq> x" "k \<notin> R" by auto
    show ?thesis
    proof (cases "m k")
      case None
      then show ?thesis using k by (auto simp: detach_def pruned_def split: option.splits)
    next
      case (Some a)
      have rhs: "pruned m (insert x R) k =
          Some (a\<lparr>children := filter (\<lambda>c. \<not> (c \<in> insert x R \<and> parent_of m c = Some k)) (children a)\<rparr>)"
        using k Some by (simp add: pruned_def)
      have p0: "pruned ?m0 R k =
          Some (a\<lparr>children := filter (\<lambda>c. \<not> (c \<in> R \<and> parent_of ?m0 c = Some k)) (children a)\<rparr>)"
        using k Some by (simp add: pruned_def)
      show ?thesis
      proof (cases "parent n = Some k")
        case True
        have "detach (pruned ?m0 R) x (parent n) k =
          Some (a\<lparr>children := filter (\<lambda>c. c \<noteq> x \<and> \<not> (c \<in> R \<and> parent_of ?m0 c = Some k)) (children a)\<rparr>)"
          using True p0 by (simp add: detach_def conj_commute)
        also have "\<dots> = Some (a\<lparr>children := filter (\<lambda>c. \<not> (c \<in> insert x R \<and> parent_of m c = Some k)) (children a)\<rparr>)"
          using R px True by (auto intro!: children_filter_cong simp: parent_of_delete)
        finally show ?thesis using rhs by simp
      next
        case False
        then have "detach (pruned ?m0 R) x (parent n) k = pruned ?m0 R k"
          by (auto simp: detach_def split: option.splits)
        also have "\<dots> = Some (a\<lparr>children := filter (\<lambda>c. \<not> (c \<in> insert x R \<and> parent_of m c = Some k)) (children a)\<rparr>)"
          unfolding p0 using R px False by (auto intro!: children_filter_cong simp: parent_of_delete)
        finally show ?thesis using rhs by simp
      qed
    qed
  qed
qed

section \<open>What the subtree removal does to the table and the creation order\<close>

declare remove_subtree.simps [simp del]

lemma remove_subtree_absent:
  "map_of (nodes s) x = None \<Longrightarrow> remove_subtree x s = s"
  by (simp add: remove_subtree.simps)

lemma remove_subtree_present:
  assumes "map_of (nodes s) x = Some n"
  shows "map_of (nodes (remove_subtree x s)) =
           detach (map_of (nodes (remove_children (children n) (s\<lparr>nodes := AList.delete x (nodes s)\<rparr>))))
                  x (parent n)"
    and "node_order (remove_subtree x s) =
           filter (\<lambda>i. i \<noteq> x)
             (node_order (remove_children (children n) (s\<lparr>nodes := AList.delete x (nodes s)\<rparr>)))"
  using assms
  by (auto simp: remove_subtree.simps[of x s] Let_def detach_def update_conv' split: option.splits)

lemma remove_subtree_char:
  "map_of (nodes (remove_subtree x s)) = pruned (map_of (nodes s)) (reach (map_of (nodes s)) {x}) \<and>
   node_order (remove_subtree x s) = filter (\<lambda>i. i \<notin> reach (map_of (nodes s)) {x}) (node_order s)"
  "map_of (nodes (remove_children cs s)) = pruned (map_of (nodes s)) (reach (map_of (nodes s)) (set cs)) \<and>
   node_order (remove_children cs s) = filter (\<lambda>i. i \<notin> reach (map_of (nodes s)) (set cs)) (node_order s)"
proof (induction x s and cs s rule: remove_subtree_remove_children.induct)
  case (1 x s)
  let ?m = "map_of (nodes s)"
  show ?case
  proof (cases "?m x")
    case None
    then show ?thesis by (simp add: remove_subtree_absent reach_absent)
  next
    case (Some n)
    let ?s0 = "s\<lparr>nodes := AList.delete x (nodes s)\<rparr>"
    let ?md = "?m(x := None)"
    let ?R1 = "reach ?md (set (children n))"
    have m0: "map_of (AList.delete x (nodes s)) = ?md"
      by (rule ext) (simp add: delete_conv)
    from 1[OF Some] have ih':
      "map_of (nodes (remove_children (children n) ?s0)) =
         pruned (map_of (AList.delete x (nodes s)))
           (reach (map_of (AList.delete x (nodes s))) (set (children n)))"
      "node_order (remove_children (children n) ?s0) =
         filter (\<lambda>i. i \<notin> reach (map_of (AList.delete x (nodes s))) (set (children n))) (node_order s)"
      by simp_all
    note ih = ih'[unfolded m0]
    have xR: "x \<notin> ?R1" using reach_in_dom[of x ?md] by auto
    have R: "reach ?m {x} = insert x ?R1" by (rule reach_step[of ?m x n, OF Some])
    have "map_of (nodes (remove_subtree x s)) = pruned ?m (insert x ?R1)"
      by (simp add: remove_subtree_present(1)[OF Some] ih(1) detach_pruned_delete[of ?m x n, OF Some xR])
    moreover have "node_order (remove_subtree x s) = filter (\<lambda>i. i \<notin> insert x ?R1) (node_order s)"
      by (simp add: remove_subtree_present(2)[OF Some] ih(2) conj_commute)
    ultimately show ?thesis by (simp only: R)
  qed
next
  case (2 s)
  then show ?case by simp
next
  case (3 c cs s)
  let ?m = "map_of (nodes s)"
  let ?A = "reach ?m {c}"
  let ?ma = "pruned ?m ?A"
  let ?R2 = "reach ?ma (set cs)"
  from 3(1) have ih1: "map_of (nodes (remove_subtree c s)) = ?ma"
    "node_order (remove_subtree c s) = filter (\<lambda>i. i \<notin> ?A) (node_order s)" by simp_all
  from 3(2) have ih2: "map_of (nodes (remove_children cs (remove_subtree c s))) = pruned ?ma ?R2"
    "node_order (remove_children cs (remove_subtree c s)) = filter (\<lambda>i. i \<notin> ?R2) (filter (\<lambda>i. i \<notin> ?A) (node_order s))"
    by (simp_all add: ih1)
  have disj: "?R2 \<inter> ?A = {}"
  proof -
    have "y \<notin> ?A" if "y \<in> ?R2" for y
      using reach_in_dom[OF that] by (auto simp: pruned_def split: if_splits)
    then show ?thesis by blast
  qed
  have R: "reach ?m (set (c # cs)) = ?A \<union> ?R2" using reach_insert[of ?m c "set cs"] by simp
  have "map_of (nodes (remove_children (c # cs) s)) = pruned ?m (?A \<union> ?R2)"
    by (simp add: ih2(1) pruned_pruned[OF disj])
  moreover have "node_order (remove_children (c # cs) s) = filter (\<lambda>i. i \<notin> ?A \<union> ?R2) (node_order s)"
    by (simp add: ih2(2) conj_commute)
  ultimately show ?case by (simp only: R)
qed

section \<open>The operations keep the invariant\<close>

lemma wf_init: "wf_model (init_model reg)"
  by (auto simp: wf_model_def inv_table_def inv_links_def inv_order_def inv_selected_def
        init_nodes root_node_def split: if_splits)

lemma inv_selected_select_node: "inv_selected (select_node s i)"
  by (auto simp: inv_selected_def select_node_def split: option.splits)

lemma select_node_keeps:
  "inv_table (select_node s i) = inv_table s"
  "inv_links (select_node s i) = inv_links s"
  "inv_order (select_node s i) = inv_order s"
  by (simp_all add: inv_table_def inv_links_def inv_order_def)

lemma wf_select_node: "wf_model s \<Longrightarrow> wf_model (select_node s i)"
  by (simp add: wf_model_def select_node_keeps inv_selected_select_node)

lemma wf_select_at_position: "wf_model s \<Longrightarrow> wf_model (snd (select_at_position s xy))"
  by (simp add: select_at_position_def Let_def wf_select_node)

lemma move_selected_within_cases:
  "move_selected_within s b d = s \<or>
   (\<exists>i n pl p'. selected_id s = Some i \<and> map_of (nodes s) i = Some n \<and> payload n = Some pl \<and>
      move_selected_within s b d =
        s\<lparr>nodes := AList.update i (n\<lparr>payload := Some (pl\<lparr>pos := Some p'\<rparr>)\<rparr>) (nodes s)\<rparr>)"
  by (auto simp: move_selected_within_def Let_def split: option.splits)

lemma inv_table_update_payload:
  assumes "inv_table s" "map_of (nodes s) i = Some n" "payload n \<noteq> None"
  shows "inv_table (s\<lparr>nodes := AList.update i (n\<lparr>payload := Some q\<rparr>) (nodes s)\<rparr>)"
  using assms by (auto simp: inv_table_def update_conv' distinct_update)

lemma inv_links_update_payload:
  assumes "inv_links s" "map_of (nodes s) i = Some n" "payload n \<noteq> None"
  shows "inv_links (s\<lparr>nodes := AList.update i (n\<lparr>payload := Some q\<rparr>) (nodes s)\<rparr>)"
  unfolding inv_links_def
proof (intro conjI allI impI)
  let ?s' = "s\<lparr>nodes := AList.update i (n\<lparr>payload := Some q\<rparr>) (nodes s)\<rparr>"
  have look: "map_of (AList.update i (n\<lparr>payload := Some q\<rparr>) (nodes s)) k
      = (if k = i then Some (n\<lparr>payload := Some q\<rparr>) else map_of (nodes s) k)" for k
    by (simp add: update_conv')
  {
    fix k a assume a: "map_of (nodes ?s') k = Some a" "k \<noteq> 0"
    then obtain a0 where a0: "map_of (nodes s) k = Some a0" "kind a = kind a0" "parent a = parent a0"
      "payload a \<noteq> None \<longleftrightarrow> payload a0 \<noteq> None"
      using assms(2,3) by (auto simp: look split: if_splits)
    from assms(1) a0(1) a(2) obtain p pn where p: "payload a0 \<noteq> None" "kind a0 \<noteq> Root"
      "parent a0 = Some p" "map_of (nodes s) p = Some pn" "k \<in> set (children pn)"
      unfolding inv_links_def by blast
    have "\<exists>pn'. map_of (nodes ?s') p = Some pn' \<and> k \<in> set (children pn')"
      using p(4,5) assms(2) by (auto simp: look)
    with p a0 show "payload a \<noteq> None" "kind a \<noteq> Root"
        "\<exists>p pn. parent a = Some p \<and> map_of (nodes ?s') p = Some pn \<and> k \<in> set (children pn)"
      by auto
  }
  {
    fix k a c assume a: "map_of (nodes ?s') k = Some a" "c \<in> set (children a)"
    then obtain a0 where a0: "map_of (nodes s) k = Some a0" "children a = children a0"
      using assms(2) by (auto simp: look split: if_splits)
    with assms(1) a(2) obtain cn where cn: "map_of (nodes s) c = Some cn" "parent cn = Some k"
      unfolding inv_links_def by metis
    then show "\<exists>cn. map_of (nodes ?s') c = Some cn \<and> parent cn = Some k"
      using assms(2) by (auto simp: look)
  }
  {
    fix k a assume a: "map_of (nodes ?s') k = Some a"
    then obtain a0 where a0: "map_of (nodes s) k = Some a0" "children a = children a0"
      using assms(2) by (auto simp: look split: if_splits)
    with assms(1) show "distinct (children a)" unfolding inv_links_def by metis
  }
qed

lemma inv_order_update_payload:
  assumes "inv_order s" "map_of (nodes s) i = Some n"
  shows "inv_order (s\<lparr>nodes := AList.update i (n\<lparr>payload := Some q\<rparr>) (nodes s)\<rparr>)"
  using assms by (auto simp: inv_order_def update_conv')

lemma inv_selected_update_payload:
  assumes "inv_selected s" "map_of (nodes s) i = Some n"
  shows "inv_selected (s\<lparr>nodes := AList.update i (n\<lparr>payload := Some q\<rparr>) (nodes s)\<rparr>)"
  using assms by (auto simp: inv_selected_def update_conv' split: option.splits)

lemma wf_move_selected_within: "wf_model s \<Longrightarrow> wf_model (move_selected_within s b d)"
  using move_selected_within_cases[of s b d]
  by (auto simp: wf_model_def inv_table_update_payload inv_links_update_payload
        inv_order_update_payload inv_selected_update_payload)

lemma resolve_parent_present:
  assumes "resolve_parent s knd hint = Some p"
  shows "\<exists>pn. map_of (nodes s) p = Some pn"
proof -
  from assms have "List.find (spec_eligible s knd) (spec_candidates s hint) = Some p"
    by (simp add: resolve_parent_find)
  then have "spec_eligible s knd p" by (auto simp: find_Some_iff)
  then show ?thesis by (auto simp: spec_eligible_def split: option.splits)
qed

lemma spawn_effect:
  fixes xy :: "int \<times> int"
  assumes reg: "registry s knd idx = Some item" and res: "resolve_parent s knd hint = Some p"
    and pn: "map_of (nodes s) p = Some pn" and ne: "p \<noteq> next_id s"
  shows "map_of (nodes (snd (spawn_from_palette s knd idx xy hint))) k =
           (if k = p then Some (pn\<lparr>children := children pn @ [next_id s]\<rparr>)
            else if k = next_id s then Some (spawned_node s knd item xy p)
            else map_of (nodes s) k)"
    and "distinct (map fst (nodes s)) \<Longrightarrow>
           distinct (map fst (nodes (snd (spawn_from_palette s knd idx xy hint))))"
    and "node_order (snd (spawn_from_palette s knd idx xy hint)) = node_order s @ [next_id s]"
    and "next_id (snd (spawn_from_palette s knd idx xy hint)) = next_id s + 1"
    and "root_id (snd (spawn_from_palette s knd idx xy hint)) = root_id s"
    and "selected_id (snd (spawn_from_palette s knd idx xy hint)) = Some (next_id s)"
    and "registry (snd (spawn_from_palette s knd idx xy hint)) = registry s"
  using reg res pn ne
  by (auto simp: spawn_from_palette_def Let_def split_beta attach_child_def update_conv'
        spawned_node_def distinct_update)

lemma wf_spawn_success:
  fixes xy :: "int \<times> int"
  assumes wf: "wf_model s"
    and reg: "registry s knd idx = Some item" and res: "resolve_parent s knd hint = Some p"
  shows "wf_model (snd (spawn_from_palette s knd idx xy hint))"
proof -
  let ?s' = "snd (spawn_from_palette s knd idx xy hint)"
  let ?new = "next_id s"
  let ?nn = "spawned_node s knd item xy p"
  let ?m = "map_of (nodes s)"
  from wf have tb: "inv_table s" and ln: "inv_links s" and od: "inv_order s"
    by (simp_all add: wf_model_def)
  from resolve_parent_present[OF res] obtain pn where pn: "?m p = Some pn" by blast
  have ids: "\<And>k n. ?m k = Some n \<Longrightarrow> nid n = k \<and> 0 \<le> k \<and> k < ?new"
    using tb by (auto simp: inv_table_def)
  have fresh: "?m ?new = None"
    using ids[of ?new] by (cases "?m ?new") auto
  have ne: "p \<noteq> ?new" using pn fresh by auto
  have new0: "0 < ?new" and root0: "root_id s = 0" using tb by (auto simp: inv_table_def)
  note eff = spawn_effect[OF reg res pn ne, of xy]
  let ?pn' = "pn\<lparr>children := children pn @ [?new]\<rparr>"
  have look: "map_of (nodes ?s') k =
      (if k = p then Some ?pn' else if k = ?new then Some ?nn else ?m k)" for k
    by (rule eff(1))
  have nn: "nid ?nn = ?new" "kind ?nn \<noteq> Root" "payload ?nn \<noteq> None" "parent ?nn = Some p"
    "children ?nn = []"
    using ne by (cases knd; simp add: spawned_node_def)+
  have child_in: "\<And>k n c. ?m k = Some n \<Longrightarrow> c \<in> set (children n) \<Longrightarrow>
      (\<exists>cn. ?m c = Some cn \<and> parent cn = Some k)"
    using ln unfolding inv_links_def by blast
  have new_not_child: "?new \<notin> set (children n)" if "?m k = Some n" for k n
    using child_in[OF that, of ?new] fresh by auto

  have "inv_table ?s'"
    unfolding inv_table_def
  proof (intro conjI allI impI)
    show "distinct (map fst (nodes ?s'))" using tb eff(2) by (simp add: inv_table_def)
    show "root_id ?s' = 0" using root0 by (simp add: eff)
    show "0 < next_id ?s'" using new0 by (simp add: eff)
    from tb obtain r where r: "?m 0 = Some r" "kind r = Root" "parent r = None" "payload r = None"
      by (auto simp: inv_table_def)
    show "\<exists>r. map_of (nodes ?s') 0 = Some r \<and> kind r = Root \<and> parent r = None \<and> payload r = None"
      using r pn new0 by (auto simp: look)
  next
    fix k n assume "map_of (nodes ?s') k = Some n"
    then show "nid n = k" "0 \<le> k" "k < next_id ?s'"
      using ids[of k] ids[OF pn] nn(1) new0
      by (auto simp: look eff(4) split: if_splits)
  qed
  moreover have "inv_links ?s'"
    unfolding inv_links_def
  proof (intro conjI allI impI)
    fix k n assume kn: "map_of (nodes ?s') k = Some n" "k \<noteq> 0"
    have par_ok: "\<exists>q qn. parent a = Some q \<and> map_of (nodes ?s') q = Some qn \<and> k \<in> set (children qn)"
      "payload a \<noteq> None" "kind a \<noteq> Root"
      if a: "?m k = Some a" for a
    proof -
      from ln a kn(2) obtain q qn where q: "payload a \<noteq> None" "kind a \<noteq> Root"
        "parent a = Some q" "?m q = Some qn" "k \<in> set (children qn)"
        unfolding inv_links_def by blast
      have "\<exists>qn'. map_of (nodes ?s') q = Some qn' \<and> k \<in> set (children qn')"
        using q(4,5) pn fresh by (auto simp: look)
      with q show "\<exists>q qn. parent a = Some q \<and> map_of (nodes ?s') q = Some qn \<and> k \<in> set (children qn)"
        "payload a \<noteq> None" "kind a \<noteq> Root" by auto
    qed
    consider (p) "k = p" | (new) "k \<noteq> p" "k = ?new" | (other) "k \<noteq> p" "k \<noteq> ?new" by blast
    then have "payload n \<noteq> None \<and> kind n \<noteq> Root \<and>
      (\<exists>q qn. parent n = Some q \<and> map_of (nodes ?s') q = Some qn \<and> k \<in> set (children qn))"
    proof cases
      case p
      with kn have n: "n = ?pn'" by (simp add: look)
      from par_ok[of pn] pn p show ?thesis by (simp add: n)
    next
      case new
      with kn have n: "n = ?nn" by (simp add: look)
      show ?thesis using nn new by (auto simp: n look)
    next
      case other
      with kn have "?m k = Some n" by (simp add: look)
      from par_ok[OF this] show ?thesis by simp
    qed
    then show "payload n \<noteq> None" "kind n \<noteq> Root"
      "\<exists>q qn. parent n = Some q \<and> map_of (nodes ?s') q = Some qn \<and> k \<in> set (children qn)"
      by simp_all
  next
    fix k n c assume kn: "map_of (nodes ?s') k = Some n" "c \<in> set (children n)"
    have old: "\<exists>cn. map_of (nodes ?s') c = Some cn \<and> parent cn = Some k"
      if "?m k = Some a" "c \<in> set (children a)" for a
    proof -
      from child_in[OF that] obtain cn where cn: "?m c = Some cn" "parent cn = Some k" by blast
      then show ?thesis using pn fresh by (auto simp: look)
    qed
    consider (p) "k = p" | (new) "k \<noteq> p" "k = ?new" | (other) "k \<noteq> p" "k \<noteq> ?new" by blast
    then show "\<exists>cn. map_of (nodes ?s') c = Some cn \<and> parent cn = Some k"
    proof cases
      case p
      with kn have "c \<in> set (children pn) \<or> c = ?new" by (auto simp: look)
      then show ?thesis
      proof
        assume "c \<in> set (children pn)"
        with pn p old[of pn] show ?thesis by simp
      next
        assume "c = ?new"
        then show ?thesis using nn p ne by (auto simp: look)
      qed
    next
      case new
      with kn show ?thesis using nn by (auto simp: look)
    next
      case other
      with kn have "?m k = Some n" by (simp add: look)
      from old[OF this kn(2)] show ?thesis .
    qed
  next
    fix k n assume kn: "map_of (nodes ?s') k = Some n"
    have dist: "\<And>k a. ?m k = Some a \<Longrightarrow> distinct (children a)"
      using ln unfolding inv_links_def by blast
    show "distinct (children n)"
      using kn dist[of k] dist[OF pn] new_not_child[OF pn] nn(5)
      by (auto simp: look split: if_splits)
  qed
  moreover have "inv_order ?s'"
  proof -
    from od have o: "sorted (node_order s)" "distinct (node_order s)"
      "set (node_order s) = {k. ?m k \<noteq> None} - {0}" by (auto simp: inv_order_def)
    have lt: "\<forall>i \<in> set (node_order s). i < ?new"
      using o(3) ids by auto
    have "sorted (node_order s @ [?new])" using o(1) lt by (auto simp: sorted_append)
    moreover have "distinct (node_order s @ [?new])" using o(2) lt by auto
    moreover have "set (node_order s @ [?new]) = {k. map_of (nodes ?s') k \<noteq> None} - {0}"
      using o(3) pn new0 by (auto simp: look)
    ultimately show ?thesis by (simp add: inv_order_def eff(3))
  qed
  moreover have "inv_selected ?s'"
    using new0 root0 ne by (simp add: inv_selected_def eff look)
  ultimately show ?thesis by (simp add: wf_model_def)
qed

lemma wf_spawn: "wf_model s \<Longrightarrow> wf_model (snd (spawn_from_palette s knd idx xy hint))"
proof (cases "registry s knd idx = None \<or> resolve_parent s knd hint = None")
  case True
  assume "wf_model s"
  with True show ?thesis by (simp add: spawn_failure)
next
  case False
  assume "wf_model s"
  with False show ?thesis by (auto intro: wf_spawn_success)
qed

section \<open>The claims\<close>

text \<open>
  C1. The effective parent of a spawn is the first candidate of the list
  [parent hint, current selection if different from the hint, root] that satisfies the
  eligibility table; when no candidate qualifies (or the registry has no item) the
  spawn returns no node, and otherwise the created node has that candidate as parent.
\<close>

theorem resolve_parent_first_eligible:
  "resolve_parent s knd hint = List.find (spec_eligible s knd) (spec_candidates s hint) \<and>
   (case List.find (spec_eligible s knd) (spec_candidates s hint) of
      None \<Rightarrow> spawn_from_palette s knd idx xy hint = (None, s)
    | Some p \<Rightarrow>
        (case registry s knd idx of
           None \<Rightarrow> spawn_from_palette s knd idx xy hint = (None, s)
         | Some item \<Rightarrow>
             (\<exists>n. fst (spawn_from_palette s knd idx xy hint) = Some n \<and> parent n = Some p)))"
proof -
  have r: "List.find (spec_eligible s knd) (spec_candidates s hint) = resolve_parent s knd hint"
    by (simp add: resolve_parent_find)
  show ?thesis
  proof (cases "resolve_parent s knd hint")
    case None
    then show ?thesis by (simp add: r spawn_failure)
  next
    case res: (Some p)
    show ?thesis
    proof (cases "registry s knd idx")
      case None
      then show ?thesis by (simp add: r res spawn_failure)
    next
      case (Some item)
      then show ?thesis by (simp add: r res spawn_success spawned_node_def)
    qed
  qed
qed

theorem resolve_parent_first_eligible_witness:
  "resolve_parent example_env PEntity (Some 7) = Some 1 \<and>
   List.find (spec_eligible example_env PEntity) (spec_candidates example_env (Some 7)) = Some 1 \<and>
   (\<exists>n. fst (spawn_from_palette example_env PEntity 0 (20, 30) (Some 7)) = Some n \<and>
        parent n = Some 1)"
proof -
  have f: "List.find (spec_eligible example_env PEntity) (spec_candidates example_env (Some 7)) = Some 1"
    by (simp add: spec_candidates_def spec_eligible_def example_env_nodes example_env_fields)
  have r: "registry example_env PEntity 0
             = Some \<lparr>item_name = ''Rock'', factory = (\<lambda>p. \<lparr>pos = Some p, radius = Some 8\<rparr>)\<rparr>"
    by (simp add: example_env_fields example_registry_def)
  from resolve_parent_first_eligible [of example_env PEntity "Some 7" 0 "(20, 30)"] f r
  show ?thesis by simp
qed

text \<open>
  C2. In any sequence of operations from initialisation, among the nodes the spawns
  return, the first with a given base name is labelled with the bare name and the n-th
  (n at least 2) with the base name followed by " #" and n in decimal. No operation,
  deletion included, lowers the per-base-name counter, so a suffix is never used twice.
\<close>

theorem labels_numbered_never_reused:
  "(\<forall>i < length (filter (\<lambda>n. base_name n = b) (fst (run (init_model reg) ops))).
      name (filter (\<lambda>n. base_name n = b) (fst (run (init_model reg) ops)) ! i) =
        (if i = 0 then b else b @ '' #'' @ py_str (int i + 1))) \<and>
   label_count s b \<le> label_count (snd (apply_op s x)) b \<and>
   label_count s b \<le> label_count (snd (run s ops)) b"
proof (intro conjI allI impI)
  let ?L = "filter (\<lambda>n. base_name n = b) (fst (run (init_model reg) ops))"
  fix i assume i: "i < length ?L"
  have "name (?L ! i) = map name ?L ! i" using i by simp
  also have "\<dots> = map (\<lambda>k. spec_label b (label_count (init_model reg) b + int k))
                      [1 ..< Suc (length ?L)] ! i"
    by (simp only: run_labels[of b "init_model reg" ops])
  also have "\<dots> = spec_label b (int (1 + i))"
    using i by (simp add: init_label_count del: upt_Suc)
  also have "\<dots> = (if i = 0 then b else b @ '' #'' @ py_str (int i + 1))"
    by (simp add: spec_label_def add.commute)
  finally show "name (?L ! i) = (if i = 0 then b else b @ '' #'' @ py_str (int i + 1))" .
next
  show "label_count s b \<le> label_count (snd (apply_op s x)) b"
    by (simp add: apply_op_label_count split: option.splits)
next
  show "label_count s b \<le> label_count (snd (run s ops)) b"
    by (rule run_label_count_mono)
qed

theorem labels_numbered_never_reused_witness:
  "length (filter (\<lambda>n. base_name n = ''Rock'') (fst (run (init_model example_registry) rock_ops))) = 4 \<and>
   name (filter (\<lambda>n. base_name n = ''Rock'') (fst (run (init_model example_registry) rock_ops)) ! 3)
     = ''Rock #4'' \<and>
   map name (fst (run (init_model example_registry) rock_ops))
     = [''Zone'', ''Rock'', ''Rock #2'', ''Rock #3'', ''Rock #4'']"
proof -
  let ?L = "filter (\<lambda>n. base_name n = ''Rock'') (fst (run (init_model example_registry) rock_ops))"
  have len: "length ?L = 4"
    using arg_cong[OF rock_labels, of length] by simp
  have s4: "py_str 4 = ''4''" by code_simp
  from labels_numbered_never_reused [of "''Rock''" example_registry rock_ops] len
  have "name (?L ! 3) = ''Rock'' @ '' #'' @ py_str (int 3 + 1)"
    by simp
  then have "name (?L ! 3) = ''Rock #4''" by (simp add: s4)
  moreover have "map name (fst (run (init_model example_registry) rock_ops))
     = [''Zone'', ''Rock'', ''Rock #2'', ''Rock #3'', ''Rock #4'']"
    by code_simp
  ultimately show ?thesis using len by simp
qed

text \<open>
  C5. A spawn that fails, because the registry has no item for the kind and index or
  because no candidate parent is eligible, returns no node and leaves the whole model
  (table, creation order, selection, id counter, label counters) as it was; and a spawn
  that returns no node has changed nothing.
\<close>

theorem spawn_failure_leaves_model_unchanged:
  "(registry s knd idx = None \<or> resolve_parent s knd hint = None \<longrightarrow>
      spawn_from_palette s knd idx xy hint = (None, s)) \<and>
   (fst (spawn_from_palette s knd idx xy hint) = None \<longrightarrow>
      snd (spawn_from_palette s knd idx xy hint) = s)"
proof (intro conjI impI)
  assume "registry s knd idx = None \<or> resolve_parent s knd hint = None"
  then show "spawn_from_palette s knd idx xy hint = (None, s)" by (rule spawn_failure)
next
  assume "fst (spawn_from_palette s knd idx xy hint) = None"
  then have "registry s knd idx = None \<or> resolve_parent s knd hint = None"
    by (simp add: spawn_none_iff)
  then show "snd (spawn_from_palette s knd idx xy hint) = s"
    by (simp add: spawn_failure)
qed

theorem spawn_failure_leaves_model_unchanged_witness:
  "resolve_parent (init_model example_registry) PEntity None = None \<and>
   spawn_from_palette (init_model example_registry) PEntity 0 (5, 5) None
     = (None, init_model example_registry)"
proof -
  have h: "resolve_parent (init_model example_registry) PEntity None = None"
    by (simp add: resolve_parent_def parent_allows_def init_nodes root_node_def)
  with spawn_failure_leaves_model_unchanged
         [of "init_model example_registry" PEntity 0 None "(5, 5)"]
  show ?thesis by simp
qed

text \<open>
  C6. After \<open>move_selected_within\<close> the selected payload's position lies within
  \<open>[bound.min + radius, bound.max - radius]\<close> on each axis. As stated, for every
  bound, this fails: with radius 8 in a bound of width 10 the interval is [8, 2], and the
  node is put at 8.
\<close>

theorem move_selected_within_inverted_counterexample:
  "selected_position example_scene = Some (20, 30) \<and>
   selected_radius example_scene = 8 \<and>
   selected_position
     (move_selected_within example_scene
        \<lparr>rect_left = 0, rect_top = 0, rect_width = 10, rect_height = 100\<rparr> (5, 50))
     = Some (8, 50) \<and>
   \<not> within_bound \<lparr>rect_left = 0, rect_top = 0, rect_width = 10, rect_height = 100\<rparr> 8 (8, 50)"
  by (simp add: selected_position_def selected_radius_def selected_node_def
        move_selected_within_def position_def node_radius_def Let_def
        example_scene_nodes example_scene_fields within_bound_def rect_right_def rect_bottom_def)

text \<open>
  C6, amended. On each axis the new position is at least \<open>bound.min + radius\<close>; when
  \<open>bound.min + radius \<le> bound.max - radius\<close> it is also at most
  \<open>bound.max - radius\<close>, and otherwise it is exactly \<open>bound.min + radius\<close>. The radius
  is that of the selected node and the move does not change it.
\<close>

theorem move_selected_within_clamped:
  assumes "selected_node s = Some n" and "position n = Some p"
  shows "\<exists>x y. selected_position (move_selected_within s b d) = Some (x, y) \<and>
           selected_radius (move_selected_within s b d) = node_radius n \<and>
           of_int (rect_left b) + node_radius n \<le> x \<and>
           of_int (rect_top b) + node_radius n \<le> y \<and>
           (if of_int (rect_left b) + node_radius n \<le> of_int (rect_right b) - node_radius n
            then x \<le> of_int (rect_right b) - node_radius n
            else x = of_int (rect_left b) + node_radius n) \<and>
           (if of_int (rect_top b) + node_radius n \<le> of_int (rect_bottom b) - node_radius n
            then y \<le> of_int (rect_bottom b) - node_radius n
            else y = of_int (rect_top b) + node_radius n)"
  unfolding move_selected_within_result[OF assms]
  by (intro exI conjI refl) (auto simp: max_def min_def)

theorem move_selected_within_clamped_witness:
  "selected_node example_scene \<noteq> None \<and>
   (\<exists>x y. selected_position
            (move_selected_within example_scene
               \<lparr>rect_left = 0, rect_top = 0, rect_width = 100, rect_height = 100\<rparr> (500, - 500))
            = Some (x, y) \<and> 8 \<le> x \<and> x \<le> 92 \<and> 8 \<le> y \<and> y \<le> 92)"
proof -
  let ?n = "\<lparr>nid = 2, kind = Entity, name = ''Rock'', base_name = ''Rock'',
           payload = Some \<lparr>pos = Some (20, 30), radius = Some 8\<rparr>, parent = Some 1, children = []\<rparr>"
  let ?b = "\<lparr>rect_left = 0, rect_top = 0, rect_width = 100, rect_height = 100\<rparr>"
  have sel: "selected_node example_scene = Some ?n"
    by (simp add: selected_node_def example_scene_nodes example_scene_fields)
  have p: "position ?n = Some (20, 30)" by (simp add: position_def)
  have r: "node_radius ?n = 8" by (simp add: node_radius_def)
  from move_selected_within_clamped [OF sel p, of ?b "(500, - 500)"]
  have "\<exists>x y. selected_position (move_selected_within example_scene ?b (500, - 500)) = Some (x, y)
          \<and> 8 \<le> x \<and> x \<le> 92 \<and> 8 \<le> y \<and> y \<le> 92"
    by (simp add: r rect_right_def rect_bottom_def) blast
  with sel show ?thesis by simp
qed

end
